theory Spec2Isabelle
  imports Main "HOL-Library.Word"
begin

section \<open>Data model of GeometryGenerator.h\<close>

text \<open>
  A \<open>float\<close> is stored as its IEEE-754 binary32 bit pattern. The header only stores and
  copies floats; no arithmetic on them is modelled here.
\<close>

type_synonym float = "32 word"
type_synonym uint16 = "16 word"
type_synonym uint32 = "32 word"

datatype XMFLOAT3 = XMFLOAT3 float float float
datatype XMFLOAT2 = XMFLOAT2 float float

record Vertex =
  Position :: XMFLOAT3
  Normal :: XMFLOAT3
  TangentU :: XMFLOAT3
  TexC :: XMFLOAT2

text \<open>
  \<open>MeshData\<close>: the two public vectors and the private narrow-index cache
  \<open>mIndices16\<close>.
\<close>

record MeshData =
  Vertices :: "Vertex list"
  Indices32 :: "uint32 list"
  mIndices16 :: "uint16 list"

text \<open>
  Reading or writing a \<open>std::vector\<close> through \<open>operator[]\<close> past its end is undefined
  behaviour in the source; the model makes it a value.
\<close>

datatype fault = OutOfRange

section \<open>MeshData::GetIndices16\<close>

text \<open>
  \<open>std::vector::resize(n)\<close>: keeps the first \<open>n\<close> elements and pads with
  value-initialised (zero) elements.
\<close>

definition resize :: "uint16 list \<Rightarrow> nat \<Rightarrow> uint16 list" where
  "resize xs n = take n xs @ replicate (n - length xs) 0"

text \<open>
  The loop \<open>for (size_t i = 0; i < Indices32.size(); ++i)
  mIndices16[i] = static_cast<uint16>(Indices32[i]);\<close> started at index \<open>i\<close>.
  The cast of an unsigned 32-bit value to an unsigned 16-bit one keeps the low 16 bits
  (\<open>ucast\<close>).
\<close>

function GetIndices16_loop :: "uint32 list \<Rightarrow> nat \<Rightarrow> uint16 list \<Rightarrow> fault + uint16 list" where
  "GetIndices16_loop src i dst =
     (if i < length src then
        (if i < length dst
         then GetIndices16_loop src (Suc i) (dst[i := ucast (src ! i)])
         else Inl OutOfRange)
      else Inr dst)"
  by pat_completeness auto
termination
  by (relation "measure (\<lambda>(src, i, dst). length src - i)") auto

declare GetIndices16_loop.simps [simp del]

text \<open>
  The call returns a reference to the cache; the model returns the cache's contents at
  the moment of return, together with the mesh as the call leaves it.
\<close>

definition GetIndices16 :: "MeshData \<Rightarrow> fault + (uint16 list \<times> MeshData)" where
  "GetIndices16 m =
     (if mIndices16 m = [] then
        (case GetIndices16_loop (Indices32 m) 0
                (resize (mIndices16 m) (length (Indices32 m))) of
           Inl e \<Rightarrow> Inl e
         | Inr c \<Rightarrow> Inr (c, m\<lparr>mIndices16 := c\<rparr>))
      else Inr (mIndices16 m, m))"

section \<open>Clients of a mesh\<close>

text \<open>
  What a holder of a \<open>MeshData\<close> does between two requests for the narrow indices:
  call \<open>GetIndices16\<close>, or assign one of the two public vectors. The cache is a private
  member; a write to it through the reference that \<open>GetIndices16\<close> returns is not one of
  the operations modelled here.
\<close>

datatype client_op =
    CallGetIndices16
  | AssignIndices32 "uint32 list"
  | AssignVertices "Vertex list"

fun client_step :: "client_op \<Rightarrow> MeshData \<Rightarrow> fault + MeshData" where
  "client_step CallGetIndices16 m =
     (case GetIndices16 m of Inl e \<Rightarrow> Inl e | Inr (c, m') \<Rightarrow> Inr m')"
| "client_step (AssignIndices32 is) m = Inr (m\<lparr>Indices32 := is\<rparr>)"
| "client_step (AssignVertices vs) m = Inr (m\<lparr>Vertices := vs\<rparr>)"

fun client_run :: "client_op list \<Rightarrow> MeshData \<Rightarrow> fault + MeshData" where
  "client_run [] m = Inr m"
| "client_run (x # xs) m =
     (case client_step x m of Inl e \<Rightarrow> Inl e | Inr m' \<Rightarrow> client_run xs m')"

section \<open>Counting the computations of the cache\<close>

text \<open>
  \<open>GetIndices16\<close> once more, line by line as above, with one more component in its
  result: whether this call ran the body of \<open>if (mIndices16.empty())\<close>, that is, whether
  it resized the cache and ran the filling loop.
\<close>

definition GetIndices16_traced :: "MeshData \<Rightarrow> fault + (uint16 list \<times> MeshData \<times> bool)" where
  "GetIndices16_traced m =
     (if mIndices16 m = [] then
        (case GetIndices16_loop (Indices32 m) 0
                (resize (mIndices16 m) (length (Indices32 m))) of
           Inl e \<Rightarrow> Inl e
         | Inr c \<Rightarrow> Inr (c, m\<lparr>mIndices16 := c\<rparr>, True))
      else Inr (mIndices16 m, m, False))"

text \<open>
  \<open>n\<close> calls in a row on the same mesh: the number of them that computed the cache, and
  the mesh they leave.
\<close>

fun GetIndices16_calls :: "nat \<Rightarrow> MeshData \<Rightarrow> fault + (nat \<times> MeshData)" where
  "GetIndices16_calls 0 m = Inr (0, m)"
| "GetIndices16_calls (Suc n) m =
     (case GetIndices16_traced m of
        Inl e \<Rightarrow> Inl e
      | Inr (c, m', computed) \<Rightarrow>
          (case GetIndices16_calls n m' of
             Inl e \<Rightarrow> Inl e
           | Inr (k, m'') \<Rightarrow> Inr ((if computed then Suc k else k), m'')))"

section \<open>GeometryGenerator::Subdivide\<close>

text \<open>
  Modelled from the spec: the header declares \<open>void Subdivide(MeshData& meshData)\<close> and
  the private \<open>Vertex MidPoint(const Vertex& v0, const Vertex& v1)\<close>; their bodies are
  not in the header. The spec (Subdivision Engine): for every triangle \<open>(v0,v1,v2)\<close>,
  compute the three edge midpoints \<open>m0 = mid(v0,v1)\<close>, \<open>m1 = mid(v1,v2)\<close>,
  \<open>m2 = mid(v2,v0)\<close> with the Midpoint operation, then replace the one triangle with
  four: \<open>(v0,m0,m2)\<close>, \<open>(m0,v1,m1)\<close>, \<open>(m2,m1,v2)\<close>, \<open>(m0,m1,m2)\<close>; each triangle
  subdivides independently and midpoints shared between triangles are not deduplicated.

  \<open>MidPoint\<close> is floating-point arithmetic and is taken as the parameter \<open>mid\<close>.
  Triangle number \<open>i\<close> of the input contributes the six vertices
  \<open>v0, v1, v2, m0, m1, m2\<close> at the offsets \<open>6 * i\<close> to \<open>6 * i + 5\<close> of the new vertex
  list and twelve \<open>uint32\<close> indices.
\<close>

text \<open>
  Modelled from the spec: the six vertices one triangle contributes, its corners and its
  edge midpoints (the body of \<open>Subdivide\<close> is missing).
\<close>

definition Subdivide_vertices ::
  "(Vertex \<Rightarrow> Vertex \<Rightarrow> Vertex) \<Rightarrow> Vertex \<Rightarrow> Vertex \<Rightarrow> Vertex \<Rightarrow> Vertex list" where
  "Subdivide_vertices mid v0 v1 v2 =
     (let m0 = mid v0 v1; m1 = mid v1 v2; m2 = mid v2 v0
      in [v0, v1, v2, m0, m1, m2])"

text \<open>
  Modelled from the spec: the twelve indices of triangle number \<open>i\<close> (the body of
  \<open>Subdivide\<close> is missing), naming \<open>(v0,m0,m2)\<close>, \<open>(m0,v1,m1)\<close>, \<open>(m2,m1,v2)\<close>,
  \<open>(m0,m1,m2)\<close> among its six vertices. They are \<open>uint32\<close> values, as \<open>Indices32\<close> is
  declared, so they wrap around at \<open>2 ^ 32\<close>.
\<close>

definition Subdivide_indices :: "nat \<Rightarrow> uint32 list" where
  "Subdivide_indices i =
     map (\<lambda>k. of_nat (6 * i + k)) [0, 3, 5, 3, 1, 4, 5, 4, 2, 3, 4, 5]"

text \<open>
  Modelled from the spec: the pass over the triangles (the body of \<open>Subdivide\<close> is
  missing), from triangle number \<open>i\<close> on. An index that is not a vertex offset is an
  out-of-range read; indices left over after the last full triple are dropped.
\<close>

fun Subdivide_from ::
  "(Vertex \<Rightarrow> Vertex \<Rightarrow> Vertex) \<Rightarrow> Vertex list \<Rightarrow> nat \<Rightarrow> uint32 list
     \<Rightarrow> fault + (Vertex list \<times> uint32 list)" where
  "Subdivide_from mid vs i (a # b # c # rest) =
     (if unat a < length vs \<and> unat b < length vs \<and> unat c < length vs then
        (case Subdivide_from mid vs (Suc i) rest of
           Inl e \<Rightarrow> Inl e
         | Inr (V, I) \<Rightarrow>
             Inr (Subdivide_vertices mid (vs ! unat a) (vs ! unat b) (vs ! unat c) @ V,
                  Subdivide_indices i @ I))
      else Inl OutOfRange)"
| "Subdivide_from mid vs i _ = Inr ([], [])"

text \<open>
  Modelled from the spec: \<open>Subdivide\<close> itself (its body is missing). It replaces
  \<open>Vertices\<close> and \<open>Indices32\<close> of the mesh it is given; the spec has no invalidation of
  the narrow-index cache, which stays as it is.
\<close>

definition Subdivide :: "(Vertex \<Rightarrow> Vertex \<Rightarrow> Vertex) \<Rightarrow> MeshData \<Rightarrow> fault + MeshData" where
  "Subdivide mid m =
     (case Subdivide_from mid (Vertices m) 0 (Indices32 m) of
        Inl e \<Rightarrow> Inl e
      | Inr (V, I) \<Rightarrow> Inr (m\<lparr>Vertices := V, Indices32 := I\<rparr>))"

text \<open>
  Modelled from the spec: the invariants of a mesh container (the header states none):
  the number of indices is a multiple of 3 and every index is a valid vertex offset.
\<close>

definition valid_mesh :: "MeshData \<Rightarrow> bool" where
  "valid_mesh m =
     (length (Indices32 m) mod 3 = 0 \<and>
      list_all (\<lambda>w. unat w < length (Vertices m)) (Indices32 m))"

text \<open>
  Modelled from the spec: the number of triangles of a mesh (the header has no such
  function); each consecutive triple of indices forms one triangle.
\<close>

definition triangle_count :: "MeshData \<Rightarrow> nat" where
  "triangle_count m = length (Indices32 m) div 3"

text \<open>
  Modelled from the spec: the triangles of a mesh (the header has no such function), each
  consecutive index triple resolved to its three vertices.
\<close>

fun triangles_of :: "Vertex list \<Rightarrow> uint32 list \<Rightarrow> (Vertex \<times> Vertex \<times> Vertex) list" where
  "triangles_of vs (a # b # c # rest) =
     (vs ! unat a, vs ! unat b, vs ! unat c) # triangles_of vs rest"
| "triangles_of vs _ = []"

definition triangles :: "MeshData \<Rightarrow> (Vertex \<times> Vertex \<times> Vertex) list" where
  "triangles m = triangles_of (Vertices m) (Indices32 m)"

text \<open>
  Modelled from the spec: the four triangles that take the place of \<open>(v0,v1,v2)\<close>, in
  the spec's order (the body of \<open>Subdivide\<close> is missing).
\<close>

fun four_triangles ::
  "(Vertex \<Rightarrow> Vertex \<Rightarrow> Vertex) \<Rightarrow> Vertex \<times> Vertex \<times> Vertex
     \<Rightarrow> (Vertex \<times> Vertex \<times> Vertex) list" where
  "four_triangles mid (v0, v1, v2) =
     (let m0 = mid v0 v1; m1 = mid v1 v2; m2 = mid v2 v0
      in [(v0, m0, m2), (m0, v1, m1), (m2, m1, v2), (m0, m1, m2)])"

section \<open>Example meshes\<close>

definition example_vertex :: Vertex where
  "example_vertex =
     \<lparr>Position = XMFLOAT3 0 0 0, Normal = XMFLOAT3 0 0 0,
      TangentU = XMFLOAT3 0 0 0, TexC = XMFLOAT2 0 0\<rparr>"

text \<open>A right triangle; \<open>0x3F800000\<close> is the bit pattern of \<open>1.0f\<close>.\<close>

definition example_triangle :: MeshData where
  "example_triangle =
     \<lparr>Vertices = [example_vertex,
                 example_vertex\<lparr>Position := XMFLOAT3 0x3F800000 0 0\<rparr>,
                 example_vertex\<lparr>Position := XMFLOAT3 0 0x3F800000 0\<rparr>],
      Indices32 = [0, 1, 2], mIndices16 = []\<rparr>"

definition example_wide :: MeshData where
  "example_wide =
     \<lparr>Vertices = replicate 70002 example_vertex,
      Indices32 = [65536, 0, 70001], mIndices16 = []\<rparr>"

text \<open>A default-constructed \<open>MeshData\<close>: three empty vectors.\<close>

definition example_empty :: MeshData where
  "example_empty = \<lparr>Vertices = [], Indices32 = [], mIndices16 = []\<rparr>"

section \<open>The loop computes the truncated copy\<close>

lemma GetIndices16_loop_map:
  "i \<le> length src \<Longrightarrow> length dst = length src \<Longrightarrow>
   GetIndices16_loop src i dst = Inr (take i dst @ map ucast (drop i src))"
proof (induction src i dst rule: GetIndices16_loop.induct)
  case (1 src i dst)
  show ?case
  proof (cases "i < length src")
    case True
    with "1.prems" have idst: "i < length dst" by simp
    have step: "GetIndices16_loop src i dst
                  = GetIndices16_loop src (Suc i) (dst[i := ucast (src ! i)])"
      using True idst by (subst GetIndices16_loop.simps) simp
    have ih: "GetIndices16_loop src (Suc i) (dst[i := ucast (src ! i)])
                = Inr (take (Suc i) (dst[i := ucast (src ! i)]) @ map ucast (drop (Suc i) src))"
      using "1.IH" [OF True idst] True "1.prems" by simp
    have "take (Suc i) (dst[i := ucast (src ! i)]) = take i dst @ [ucast (src ! i)]"
      using idst by (simp add: take_Suc_conv_app_nth)
    moreover have "drop i src = src ! i # drop (Suc i) src"
      using True by (simp add: Cons_nth_drop_Suc)
    ultimately show ?thesis using step ih by simp
  next
    case False
    with "1.prems" have "i = length src" by simp
    then show ?thesis
      using "1.prems" by (subst GetIndices16_loop.simps) simp
  qed
qed

lemma GetIndices16_fresh:
  "mIndices16 m = [] \<Longrightarrow>
   GetIndices16 m = Inr (map ucast (Indices32 m), m\<lparr>mIndices16 := map ucast (Indices32 m)\<rparr>)"
  by (simp add: GetIndices16_def resize_def GetIndices16_loop_map)

lemma GetIndices16_cached:
  "mIndices16 m \<noteq> [] \<Longrightarrow> GetIndices16 m = Inr (mIndices16 m, m)"
  by (simp add: GetIndices16_def)

lemma unat_ucast_32_16: "unat (ucast (w :: uint32) :: uint16) = unat w mod 2 ^ 16"
  by (simp add: unsigned_ucast_eq unsigned_take_bit_eq take_bit_eq_mod)

lemma unat_uint16_bound: "unat (c :: uint16) < 2 ^ 16"
  using unsigned_less [of c, where ?'a = nat] by simp

lemma GetIndices16_returns: "\<exists>c m'. GetIndices16 m = Inr (c, m')"
  by (cases "mIndices16 m = []") (simp_all add: GetIndices16_fresh GetIndices16_cached)

lemma GetIndices16_again:
  "GetIndices16 m = Inr (c, m') \<Longrightarrow> GetIndices16 m' = Inr (c, m')"
proof (cases "mIndices16 m = []")
  case True
  assume "GetIndices16 m = Inr (c, m')"
  with True have c: "c = map ucast (Indices32 m)" and m': "m' = m\<lparr>mIndices16 := c\<rparr>"
    by (auto simp add: GetIndices16_fresh)
  show ?thesis
  proof (cases "c = []")
    case True
    with c m' have "mIndices16 m' = []" and "Indices32 m' = []" by simp_all
    then have "GetIndices16 m' = Inr ([], m'\<lparr>mIndices16 := []\<rparr>)"
      by (simp add: GetIndices16_fresh)
    with True m' show ?thesis by simp
  next
    case False
    with m' have "mIndices16 m' \<noteq> []" by simp
    then show ?thesis using m' by (simp add: GetIndices16_cached)
  qed
next
  case False
  assume "GetIndices16 m = Inr (c, m')"
  with False show ?thesis by (auto simp add: GetIndices16_cached)
qed

lemma client_run_calls_fixed:
  "GetIndices16 m = Inr (c, m) \<Longrightarrow> client_run (replicate n CallGetIndices16) m = Inr m"
  by (induction n) simp_all

lemma client_step_keeps_cache:
  "mIndices16 m \<noteq> [] \<Longrightarrow> \<exists>m'. client_step x m = Inr m' \<and> mIndices16 m' = mIndices16 m"
  by (cases x) (simp_all add: GetIndices16_cached)

lemma client_run_keeps_cache:
  "mIndices16 m \<noteq> [] \<Longrightarrow> \<exists>m'. client_run xs m = Inr m' \<and> mIndices16 m' = mIndices16 m"
proof (induction xs arbitrary: m)
  case Nil
  then show ?case by simp
next
  case (Cons x xs)
  from client_step_keeps_cache [OF Cons.prems]
  obtain m1 where s: "client_step x m = Inr m1" and k: "mIndices16 m1 = mIndices16 m"
    by blast
  with Cons.prems have "mIndices16 m1 \<noteq> []" by simp
  from Cons.IH [OF this] k s show ?case by simp
qed

lemma GetIndices16_result_is_cache:
  "GetIndices16 m = Inr (c, m') \<Longrightarrow> mIndices16 m' = c"
  by (cases "mIndices16 m = []") (auto simp add: GetIndices16_fresh GetIndices16_cached)

lemma GetIndices16_traced_fresh:
  "mIndices16 m = [] \<Longrightarrow>
   GetIndices16_traced m
     = Inr (map ucast (Indices32 m), m\<lparr>mIndices16 := map ucast (Indices32 m)\<rparr>, True)"
  by (simp add: GetIndices16_traced_def resize_def GetIndices16_loop_map)

lemma GetIndices16_traced_cached:
  "mIndices16 m \<noteq> [] \<Longrightarrow> GetIndices16_traced m = Inr (mIndices16 m, m, False)"
  by (simp add: GetIndices16_traced_def)

lemma GetIndices16_traced_agrees:
  "GetIndices16 m
     = (case GetIndices16_traced m of Inl e \<Rightarrow> Inl e | Inr (c, m', computed) \<Rightarrow> Inr (c, m'))"
  by (cases "mIndices16 m = []")
     (simp_all add: GetIndices16_fresh GetIndices16_cached
        GetIndices16_traced_fresh GetIndices16_traced_cached)

lemma GetIndices16_calls_cached:
  "mIndices16 m \<noteq> [] \<Longrightarrow> GetIndices16_calls n m = Inr (0, m)"
  by (induction n) (simp_all add: GetIndices16_traced_cached)

lemma GetIndices16_calls_nothing_to_cache:
  assumes "mIndices16 m = []" and "Indices32 m = []"
  shows "GetIndices16_calls n m = Inr (n, m)"
proof (induction n)
  case 0
  show ?case by simp
next
  case (Suc n)
  from assms(1) have same: "m\<lparr>mIndices16 := []\<rparr> = m" by simp
  from assms have "GetIndices16_traced m = Inr ([], m\<lparr>mIndices16 := []\<rparr>, True)"
    by (simp add: GetIndices16_traced_fresh)
  then have "GetIndices16_traced m = Inr ([], m, True)"
    by (simp only: same)
  with Suc show ?case by simp
qed

lemma GetIndices16_calls_fresh:
  assumes "mIndices16 m = []" and "Indices32 m \<noteq> []"
  shows "GetIndices16_calls (Suc n) m
           = Inr (Suc 0, m\<lparr>mIndices16 := map ucast (Indices32 m)\<rparr>)"
proof -
  let ?m1 = "m\<lparr>mIndices16 := map ucast (Indices32 m)\<rparr>"
  from assms(2) have "mIndices16 ?m1 \<noteq> []" by simp
  then have "GetIndices16_calls n ?m1 = Inr (0, ?m1)"
    by (rule GetIndices16_calls_cached)
  with assms(1) show ?thesis
    by (simp add: GetIndices16_traced_fresh)
qed

section \<open>Claims about GetIndices16\<close>

text \<open>
  C1. On a mesh whose cache is empty, that has at most 65536 vertices and whose wide
  indices are all valid vertex offsets, \<open>GetIndices16\<close> returns narrow indices that are,
  as numbers, the wide indices, one for one.
\<close>

theorem GetIndices16_exact_below_65536:
  assumes "mIndices16 m = []"
    and "length (Vertices m) \<le> 65536"
    and "list_all (\<lambda>w. unat w < length (Vertices m)) (Indices32 m)"
  shows "\<exists>c m'. GetIndices16 m = Inr (c, m') \<and> map unat c = map unat (Indices32 m)"
proof -
  have "unat (ucast w :: uint16) = unat w" if "w \<in> set (Indices32 m)" for w
  proof -
    from that assms(3) have "unat w < length (Vertices m)" by (simp add: list_all_iff)
    with assms(2) have "unat w < 2 ^ 16" by simp
    then show ?thesis by (simp add: unat_ucast_32_16)
  qed
  then have "map unat (map ucast (Indices32 m) :: uint16 list) = map unat (Indices32 m)"
    by simp
  with assms(1) show ?thesis by (simp add: GetIndices16_fresh)
qed

theorem GetIndices16_exact_below_65536_witness:
  "mIndices16 example_triangle = [] \<and>
   length (Vertices example_triangle) \<le> 65536 \<and>
   list_all (\<lambda>w. unat w < length (Vertices example_triangle)) (Indices32 example_triangle) \<and>
   (\<exists>c m'. GetIndices16 example_triangle = Inr (c, m') \<and> map unat c = [0, 1, 2])"
proof -
  have h1: "mIndices16 example_triangle = []"
    by (simp add: example_triangle_def)
  have h2: "length (Vertices example_triangle) \<le> 65536"
    by (simp add: example_triangle_def)
  have h3: "list_all (\<lambda>w. unat w < length (Vertices example_triangle))
              (Indices32 example_triangle)"
    by (simp add: example_triangle_def)
  have "map unat (Indices32 example_triangle) = [0, 1, 2]"
    by (simp add: example_triangle_def)
  with GetIndices16_exact_below_65536 [OF h1 h2 h3] h1 h2 h3 show ?thesis by simp
qed

text \<open>
  C2. On a mesh whose cache is empty, \<open>GetIndices16\<close> returns as many narrow indices as
  there are wide ones, and the i-th is the i-th wide index modulo \<open>2 ^ 16\<close>.
\<close>

theorem GetIndices16_truncates:
  assumes "mIndices16 m = []"
  shows "\<exists>c m'. GetIndices16 m = Inr (c, m') \<and> length c = length (Indices32 m) \<and>
           (\<forall>i < length c. unat (c ! i) = unat (Indices32 m ! i) mod 2 ^ 16)"
  using assms by (simp add: GetIndices16_fresh unat_ucast_32_16)

theorem GetIndices16_truncates_witness:
  "mIndices16 example_wide = [] \<and>
   (\<exists>c m'. GetIndices16 example_wide = Inr (c, m') \<and> length c = 3 \<and>
      unat (c ! 0) = 0 \<and> unat (c ! 1) = 0 \<and> unat (c ! 2) = 4465)"
proof -
  have h: "mIndices16 example_wide = []"
    by (simp add: example_wide_def)
  from GetIndices16_truncates [OF h]
  obtain c m' where r: "GetIndices16 example_wide = Inr (c, m')"
    and l: "length c = length (Indices32 example_wide)"
    and t: "\<forall>i < length c. unat (c ! i) = unat (Indices32 example_wide ! i) mod 2 ^ 16"
    by blast
  from l have l3: "length c = 3" by (simp add: example_wide_def)
  from t l3 have "unat (c ! 0) = 0" "unat (c ! 1) = 0" "unat (c ! 2) = 4465"
    by (simp_all add: example_wide_def)
  with h r l3 show ?thesis by simp
qed

text \<open>
  C3. Two calls of \<open>GetIndices16\<close> in a row, with nothing done to the mesh in between,
  return the same narrow indices: the second call, made on the mesh as the first one left
  it, returns what the first one returned.
\<close>

theorem GetIndices16_twice_same:
  "\<exists>c1 m1 c2 m2. GetIndices16 m = Inr (c1, m1) \<and> GetIndices16 m1 = Inr (c2, m2) \<and> c1 = c2"
proof -
  obtain c m1 where r: "GetIndices16 m = Inr (c, m1)"
    using GetIndices16_returns by blast
  from GetIndices16_again [OF r] r show ?thesis by simp
qed

theorem GetIndices16_twice_same_witness:
  "\<exists>m1 m2. GetIndices16 example_wide = Inr ([0, 0, 4465], m1) \<and>
      GetIndices16 m1 = Inr ([0, 0, 4465], m2)"
proof -
  from GetIndices16_twice_same [of example_wide]
  obtain c1 m1 c2 m2 where r1: "GetIndices16 example_wide = Inr (c1, m1)"
    and r2: "GetIndices16 m1 = Inr (c2, m2)" and e: "c1 = c2"
    by blast
  have "GetIndices16 example_wide
          = Inr ([0, 0, 4465], example_wide\<lparr>mIndices16 := [0, 0, 4465]\<rparr>)"
    by (simp add: GetIndices16_fresh example_wide_def)
  with r1 have "c1 = [0, 0, 4465]" by simp
  with r1 r2 e show ?thesis by blast
qed

text \<open>
  C4. No call of \<open>GetIndices16\<close> changes \<open>Vertices\<close> or \<open>Indices32\<close>, and the mesh the
  first call leaves is a fixed point: any number of further calls leaves every field as
  it is and returns the same narrow indices. Among any \<open>n\<close> calls in a row on a mesh
  whose \<open>Indices32\<close> is not empty, at most one computes the cache. (On empty
  \<open>Indices32\<close> the cache stays empty and the guard cannot tell it from one not yet
  computed: the statement below the theorem.)
\<close>

theorem GetIndices16_frame:
  "\<exists>c m1. GetIndices16 m = Inr (c, m1) \<and>
     Vertices m1 = Vertices m \<and> Indices32 m1 = Indices32 m \<and>
     (\<forall>n. client_run (replicate n CallGetIndices16) m1 = Inr m1) \<and>
     GetIndices16 m1 = Inr (c, m1) \<and>
     (\<forall>n. \<exists>k mn. GetIndices16_calls n m = Inr (k, mn) \<and>
        Vertices mn = Vertices m \<and> Indices32 mn = Indices32 m \<and>
        (0 < n \<longrightarrow> mn = m1) \<and>
        (Indices32 m \<noteq> [] \<longrightarrow> k \<le> 1))"
proof -
  obtain c m1 where r: "GetIndices16 m = Inr (c, m1)"
    using GetIndices16_returns by blast
  have again: "GetIndices16 m1 = Inr (c, m1)"
    by (rule GetIndices16_again [OF r])
  have frame: "Vertices m1 = Vertices m \<and> Indices32 m1 = Indices32 m"
  proof (cases "mIndices16 m = []")
    case True
    with r show ?thesis by (auto simp add: GetIndices16_fresh)
  next
    case False
    with r show ?thesis by (auto simp add: GetIndices16_cached)
  qed
  have fixed: "\<forall>n. client_run (replicate n CallGetIndices16) m1 = Inr m1"
    using client_run_calls_fixed [OF again] by simp
  have count: "\<exists>k mn. GetIndices16_calls n m = Inr (k, mn) \<and>
        Vertices mn = Vertices m \<and> Indices32 mn = Indices32 m \<and>
        (0 < n \<longrightarrow> mn = m1) \<and> (Indices32 m \<noteq> [] \<longrightarrow> k \<le> 1)" for n
  proof (cases "mIndices16 m = []")
    case False
    with r have "m1 = m" by (simp add: GetIndices16_cached)
    with GetIndices16_calls_cached [OF False, of n] show ?thesis by simp
  next
    case True
    with r have m1: "m1 = m\<lparr>mIndices16 := map ucast (Indices32 m)\<rparr>"
      by (auto simp add: GetIndices16_fresh)
    show ?thesis
    proof (cases "Indices32 m = []")
      case True
      with \<open>mIndices16 m = []\<close> m1 have "m1 = m" by simp
      with GetIndices16_calls_nothing_to_cache [OF \<open>mIndices16 m = []\<close> True, of n] True
      show ?thesis by simp
    next
      case False
      show ?thesis
      proof (cases n)
        case 0
        then show ?thesis by simp
      next
        case (Suc n')
        with GetIndices16_calls_fresh [OF True False, of n'] m1 show ?thesis by simp
      qed
    qed
  qed
  from r again frame fixed count show ?thesis by blast
qed

theorem GetIndices16_frame_witness:
  "Indices32 example_wide \<noteq> [] \<and> (0 :: nat) < 3 \<and>
   (\<exists>m1. GetIndices16 example_wide = Inr ([0, 0, 4465], m1) \<and>
     Vertices m1 = replicate 70002 example_vertex \<and>
     Indices32 m1 = [65536, 0, 70001] \<and>
     mIndices16 m1 = [0, 0, 4465] \<and>
     client_run [CallGetIndices16, CallGetIndices16, CallGetIndices16] m1 = Inr m1 \<and>
     GetIndices16_calls 3 example_wide = Inr (1, m1))"
proof -
  have ne: "Indices32 example_wide \<noteq> []"
    by (simp add: example_wide_def)
  have e: "mIndices16 example_wide = []"
    by (simp add: example_wide_def)
  from GetIndices16_frame [of example_wide]
  obtain c m1 where r: "GetIndices16 example_wide = Inr (c, m1)"
    and v: "Vertices m1 = Vertices example_wide"
    and i: "Indices32 m1 = Indices32 example_wide"
    and n: "\<forall>n. client_run (replicate n CallGetIndices16) m1 = Inr m1"
    and k: "\<forall>n. \<exists>k mn. GetIndices16_calls n example_wide = Inr (k, mn) \<and>
        Vertices mn = Vertices example_wide \<and> Indices32 mn = Indices32 example_wide \<and>
        (0 < n \<longrightarrow> mn = m1) \<and> (Indices32 example_wide \<noteq> [] \<longrightarrow> k \<le> 1)"
    by blast
  have f: "GetIndices16 example_wide
          = Inr ([0, 0, 4465], example_wide\<lparr>mIndices16 := [0, 0, 4465]\<rparr>)"
    by (simp add: GetIndices16_fresh example_wide_def)
  with r have c: "c = [0, 0, 4465]" and m1: "m1 = example_wide\<lparr>mIndices16 := [0, 0, 4465]\<rparr>"
    by auto
  from n have "client_run (replicate (Suc (Suc (Suc 0))) CallGetIndices16) m1 = Inr m1"
    by blast
  then have three: "client_run [CallGetIndices16, CallGetIndices16, CallGetIndices16] m1 = Inr m1"
    by (simp only: replicate.simps)
  from k obtain k3 m3 where c3: "GetIndices16_calls 3 example_wide = Inr (k3, m3)"
    and "0 < (3 :: nat) \<longrightarrow> m3 = m1" and "Indices32 example_wide \<noteq> [] \<longrightarrow> k3 \<le> 1"
    by blast
  with ne have m3: "m3 = m1" and le: "k3 \<le> 1" by simp_all
  have "GetIndices16_calls (Suc (Suc (Suc 0))) example_wide
          = Inr (Suc 0, example_wide\<lparr>mIndices16 := map ucast (Indices32 example_wide)\<rparr>)"
    by (rule GetIndices16_calls_fresh [OF e ne])
  then have "GetIndices16_calls 3 example_wide
          = Inr (Suc 0, example_wide\<lparr>mIndices16 := map ucast (Indices32 example_wide)\<rparr>)"
    by (simp only: numeral_3_eq_3)
  with c3 have "k3 = 1" by simp
  with c3 m3 have calls: "GetIndices16_calls 3 example_wide = Inr (1, m1)" by simp
  from v i have "Vertices m1 = replicate 70002 example_vertex"
    and "Indices32 m1 = [65536, 0, 70001]"
    by (simp_all add: example_wide_def)
  moreover from m1 have "mIndices16 m1 = [0, 0, 4465]" by simp
  ultimately show ?thesis using ne r c three calls by auto
qed

text \<open>
  On a mesh with no indices every call finds the cache empty and computes it again: two
  calls in a row on the default-constructed mesh both run the computing branch.
\<close>

theorem GetIndices16_computed_twice_counterexample:
  "GetIndices16_calls 2 example_empty = Inr (2, example_empty) \<and> \<not> (2 :: nat) \<le> 1"
proof -
  have "GetIndices16_calls (Suc (Suc 0)) example_empty = Inr (Suc (Suc 0), example_empty)"
    by (rule GetIndices16_calls_nothing_to_cache) (simp_all add: example_empty_def)
  then show ?thesis by (simp add: numeral_2_eq_2)
qed

text \<open>
  C5. \<open>GetIndices16\<close> returns on every mesh; there is no failing outcome, whatever the
  number of vertices and the size of the wide indices. Wherever a wide index is at or
  above \<open>2 ^ 16\<close>, the narrow index returned at that place differs from it as a number,
  and on an empty cache the narrow indices are the wide ones cut to their low 16 bits.
\<close>

theorem GetIndices16_never_fails:
  "\<exists>c m'. GetIndices16 m = Inr (c, m') \<and>
     (\<forall>i. i < length c \<and> i < length (Indices32 m) \<and> 2 ^ 16 \<le> unat (Indices32 m ! i)
        \<longrightarrow> unat (c ! i) \<noteq> unat (Indices32 m ! i)) \<and>
     (mIndices16 m = [] \<longrightarrow> c = map ucast (Indices32 m))"
proof -
  obtain c m' where r: "GetIndices16 m = Inr (c, m')"
    using GetIndices16_returns by blast
  have "unat (c ! i) \<noteq> unat (Indices32 m ! i)"
    if "2 ^ 16 \<le> unat (Indices32 m ! i)" for i
    using that unat_uint16_bound [of "c ! i"] by simp
  moreover have "mIndices16 m = [] \<longrightarrow> c = map ucast (Indices32 m)"
    using r by (auto simp add: GetIndices16_fresh)
  ultimately show ?thesis using r by blast
qed

theorem GetIndices16_never_fails_witness:
  "65536 < length (Vertices example_wide) \<and>
   2 ^ 16 \<le> unat (Indices32 example_wide ! 2) \<and>
   (\<exists>c m'. GetIndices16 example_wide = Inr (c, m') \<and> c = [0, 0, 4465] \<and>
      unat (c ! 2) \<noteq> unat (Indices32 example_wide ! 2))"
proof -
  have v: "65536 < length (Vertices example_wide)"
    by (simp add: example_wide_def)
  have w: "2 ^ 16 \<le> unat (Indices32 example_wide ! 2)"
    by (simp add: example_wide_def)
  have e: "mIndices16 example_wide = []"
    by (simp add: example_wide_def)
  from GetIndices16_never_fails [of example_wide]
  obtain c m' where r: "GetIndices16 example_wide = Inr (c, m')"
    and d: "\<forall>i. i < length c \<and> i < length (Indices32 example_wide) \<and>
              2 ^ 16 \<le> unat (Indices32 example_wide ! i)
              \<longrightarrow> unat (c ! i) \<noteq> unat (Indices32 example_wide ! i)"
    and t: "mIndices16 example_wide = [] \<longrightarrow> c = map ucast (Indices32 example_wide)"
    by blast
  from t e have c: "c = [0, 0, 4465]"
    by (simp add: example_wide_def)
  have "2 < length c \<and> 2 < length (Indices32 example_wide)"
    using c by (simp add: example_wide_def)
  with d w have "unat (c ! 2) \<noteq> unat (Indices32 example_wide ! 2)" by blast
  with v w r c show ?thesis by blast
qed

text \<open>
  C6. Once a call of \<open>GetIndices16\<close> has returned a non-empty sequence, every later call
  returns that same sequence and leaves the mesh as it finds it, whatever calls and
  assignments to \<open>Indices32\<close> or \<open>Vertices\<close> the client has made in between: the cache
  is never recomputed.
\<close>

theorem GetIndices16_no_invalidation:
  assumes "GetIndices16 m = Inr (c, m1)" and "c \<noteq> []"
  shows "\<exists>m2. client_run ops m1 = Inr m2 \<and> GetIndices16 m2 = Inr (c, m2)"
proof -
  from assms have ne: "mIndices16 m1 \<noteq> []" and eq: "mIndices16 m1 = c"
    by (simp_all add: GetIndices16_result_is_cache)
  from client_run_keeps_cache [OF ne, of ops]
  obtain m2 where run: "client_run ops m1 = Inr m2" and k: "mIndices16 m2 = mIndices16 m1"
    by blast
  from k ne eq have "GetIndices16 m2 = Inr (c, m2)"
    by (simp add: GetIndices16_cached)
  with run show ?thesis by blast
qed

theorem GetIndices16_no_invalidation_witness:
  "GetIndices16 example_triangle = Inr ([0, 1, 2], example_triangle\<lparr>mIndices16 := [0, 1, 2]\<rparr>) \<and>
   [0, 1, 2] \<noteq> ([] :: uint16 list) \<and>
   (\<exists>m2. client_run [AssignIndices32 [2, 2, 2, 1, 1, 1], CallGetIndices16]
            (example_triangle\<lparr>mIndices16 := [0, 1, 2]\<rparr>) = Inr m2 \<and>
      Indices32 m2 = [2, 2, 2, 1, 1, 1] \<and>
      GetIndices16 m2 = Inr ([0, 1, 2], m2))"
proof -
  have h1: "GetIndices16 example_triangle
              = Inr ([0, 1, 2], example_triangle\<lparr>mIndices16 := [0, 1, 2]\<rparr>)"
    by (simp add: GetIndices16_fresh example_triangle_def)
  have h2: "[0, 1, 2] \<noteq> ([] :: uint16 list)" by simp
  from GetIndices16_no_invalidation
         [OF h1 h2, of "[AssignIndices32 [2, 2, 2, 1, 1, 1], CallGetIndices16]"]
  obtain m2 where
    run: "client_run [AssignIndices32 [2, 2, 2, 1, 1, 1], CallGetIndices16]
            (example_triangle\<lparr>mIndices16 := [0, 1, 2]\<rparr>) = Inr m2"
    and g: "GetIndices16 m2 = Inr ([0, 1, 2], m2)"
    by blast
  from run have "Indices32 m2 = [2, 2, 2, 1, 1, 1]"
    by (auto simp add: GetIndices16_cached)
  with h1 h2 run g show ?thesis by blast
qed

text \<open>
  C10. The first-call result of \<open>GetIndices16\<close> is a function of \<open>Indices32\<close> alone: two
  meshes with empty caches and the same wide indices get the same narrow indices,
  whatever their vertices are.
\<close>

theorem GetIndices16_ignores_Vertices:
  assumes "mIndices16 a = []" and "mIndices16 b = []" and "Indices32 a = Indices32 b"
  shows "\<exists>c a' b'. GetIndices16 a = Inr (c, a') \<and> GetIndices16 b = Inr (c, b') \<and>
           c = map ucast (Indices32 a)"
  using assms by (simp add: GetIndices16_fresh)

theorem GetIndices16_ignores_Vertices_witness:
  "mIndices16 example_triangle = [] \<and>
   mIndices16 (example_triangle\<lparr>Vertices := []\<rparr>) = [] \<and>
   Indices32 example_triangle = Indices32 (example_triangle\<lparr>Vertices := []\<rparr>) \<and>
   Vertices example_triangle \<noteq> Vertices (example_triangle\<lparr>Vertices := []\<rparr>) \<and>
   (\<exists>a' b'. GetIndices16 example_triangle = Inr ([0, 1, 2], a') \<and>
      GetIndices16 (example_triangle\<lparr>Vertices := []\<rparr>) = Inr ([0, 1, 2], b'))"
proof -
  have h1: "mIndices16 example_triangle = []"
    by (simp add: example_triangle_def)
  have h2: "mIndices16 (example_triangle\<lparr>Vertices := []\<rparr>) = []"
    by (simp add: example_triangle_def)
  have h3: "Indices32 example_triangle = Indices32 (example_triangle\<lparr>Vertices := []\<rparr>)"
    by simp
  have d: "Vertices example_triangle \<noteq> Vertices (example_triangle\<lparr>Vertices := []\<rparr>)"
    by (simp add: example_triangle_def)
  have i: "map ucast (Indices32 example_triangle) = ([0, 1, 2] :: uint16 list)"
    by (simp add: example_triangle_def)
  from GetIndices16_ignores_Vertices [OF h1 h2 h3] i
  have "\<exists>a' b'. GetIndices16 example_triangle = Inr ([0, 1, 2], a') \<and>
          GetIndices16 (example_triangle\<lparr>Vertices := []\<rparr>) = Inr ([0, 1, 2], b')"
    by auto
  with h1 h2 h3 d show ?thesis by blast
qed

section \<open>Subdivision\<close>

lemma unat_of_nat_le32: "unat (of_nat n :: uint32) \<le> n"
  by (simp add: unat_of_nat)

lemma unat_of_nat_id32: "n < 2 ^ 32 \<Longrightarrow> unat (of_nat n :: uint32) = n"
  by (simp add: unat_of_nat)

lemma length_Subdivide_vertices: "length (Subdivide_vertices mid v0 v1 v2) = 6"
  by (simp add: Subdivide_vertices_def)

lemma length_Subdivide_indices: "length (Subdivide_indices i) = 12"
  by (simp add: Subdivide_indices_def)

lemma Subdivide_indices_bound:
  "list_all (\<lambda>w. unat w < 6 * i + 6 + n) (Subdivide_indices i)"
proof -
  define f :: "nat \<Rightarrow> uint32" where "f = (\<lambda>k. of_nat (6 * i + k))"
  have b: "unat (f k) < 6 * i + 6 + n" if "k < 6" for k
    unfolding f_def using unat_of_nat_le32 [of "6 * i + k"] that by linarith
  have "Subdivide_indices i = map f [0, 3, 5, 3, 1, 4, 5, 4, 2, 3, 4, 5]"
    by (simp only: Subdivide_indices_def f_def)
  then show ?thesis
    by (simp add: b)
qed

lemma Subdivide_from_returns:
  "list_all (\<lambda>w. unat w < length vs) is \<Longrightarrow>
   \<exists>V I. Subdivide_from mid vs i is = Inr (V, I) \<and>
     length V = 6 * (length is div 3) \<and> length I = 12 * (length is div 3) \<and>
     list_all (\<lambda>w. unat w < 6 * i + length V) I"
proof (induction mid vs i "is" rule: Subdivide_from.induct)
  case (1 mid vs i a b c rest)
  from "1.prems" have ok: "unat a < length vs \<and> unat b < length vs \<and> unat c < length vs"
    and rest: "list_all (\<lambda>w. unat w < length vs) rest"
    by simp_all
  from "1.IH" [OF ok rest]
  obtain V I where r: "Subdivide_from mid vs (Suc i) rest = Inr (V, I)"
    and lV: "length V = 6 * (length rest div 3)"
    and lI: "length I = 12 * (length rest div 3)"
    and vI: "list_all (\<lambda>w. unat w < 6 * Suc i + length V) I"
    by blast
  let ?V = "Subdivide_vertices mid (vs ! unat a) (vs ! unat b) (vs ! unat c) @ V"
  let ?I = "Subdivide_indices i @ I"
  have res: "Subdivide_from mid vs i (a # b # c # rest) = Inr (?V, ?I)"
    using ok r by simp
  have d: "length (a # b # c # rest) div 3 = Suc (length rest div 3)"
    by simp
  have l1: "length ?V = 6 * (length (a # b # c # rest) div 3)"
    unfolding d using lV by (simp add: length_Subdivide_vertices)
  have l2: "length ?I = 12 * (length (a # b # c # rest) div 3)"
    unfolding d using lI by (simp add: length_Subdivide_indices)
  have e: "6 * Suc i + length V = 6 * i + length ?V"
    by (simp add: length_Subdivide_vertices)
  have e2: "6 * i + 6 + length V = 6 * i + length ?V"
    by (simp add: length_Subdivide_vertices)
  have "list_all (\<lambda>w. unat w < 6 * i + length ?V) (Subdivide_indices i)"
    using Subdivide_indices_bound [of i "length V"] unfolding e2 .
  moreover have "list_all (\<lambda>w. unat w < 6 * i + length ?V) I"
    using vI unfolding e .
  ultimately have l3: "list_all (\<lambda>w. unat w < 6 * i + length ?V) ?I"
    by simp
  from res l1 l2 l3 show ?case by blast
qed simp_all

lemma Subdivide_indices_triangles:
  assumes "length P = 6 * i" and "6 * i + 6 \<le> 2 ^ 32"
  shows "triangles_of (P @ Subdivide_vertices mid v0 v1 v2 @ V) (Subdivide_indices i @ I)
           = four_triangles mid (v0, v1, v2)
             @ triangles_of (P @ Subdivide_vertices mid v0 v1 v2 @ V) I"
proof -
  define f :: "nat \<Rightarrow> uint32" where "f = (\<lambda>k. of_nat (6 * i + k))"
  define S where "S = Subdivide_vertices mid v0 v1 v2"
  have lS: "length S = 6"
    by (simp add: S_def length_Subdivide_vertices)
  have u: "unat (f k) = length P + k" if "k < 6" for k
    unfolding f_def using unat_of_nat_id32 [of "6 * i + k"] that assms by simp
  have r: "(P @ S @ V) ! unat (f k) = S ! k" if "k < 6" for k
    using that lS by (simp add: u nth_append)
  have i: "Subdivide_indices i = map f [0, 3, 5, 3, 1, 4, 5, 4, 2, 3, 4, 5]"
    by (simp only: Subdivide_indices_def f_def)
  have "triangles_of (P @ S @ V) (Subdivide_indices i @ I)
          = [(S ! 0, S ! 3, S ! 5), (S ! 3, S ! 1, S ! 4), (S ! 5, S ! 4, S ! 2),
             (S ! 3, S ! 4, S ! 5)] @ triangles_of (P @ S @ V) I"
    by (simp add: i r)
  moreover have "[(S ! 0, S ! 3, S ! 5), (S ! 3, S ! 1, S ! 4), (S ! 5, S ! 4, S ! 2),
                  (S ! 3, S ! 4, S ! 5)] = four_triangles mid (v0, v1, v2)"
    by (simp add: S_def Subdivide_vertices_def Let_def)
  ultimately show ?thesis
    by (simp only: S_def)
qed

lemma Subdivide_from_triangles:
  "list_all (\<lambda>w. unat w < length vs) is \<Longrightarrow>
   Subdivide_from mid vs i is = Inr (V, I) \<Longrightarrow>
   length P = 6 * i \<Longrightarrow> 6 * i + length V \<le> 2 ^ 32 \<Longrightarrow>
   triangles_of (P @ V) I = concat (map (four_triangles mid) (triangles_of vs is))"
proof (induction mid vs i "is" arbitrary: V I P rule: Subdivide_from.induct)
  case (1 mid vs i a b c rest)
  let ?S = "Subdivide_vertices mid (vs ! unat a) (vs ! unat b) (vs ! unat c)"
  from "1.prems"(1) have ok: "unat a < length vs \<and> unat b < length vs \<and> unat c < length vs"
    and rest: "list_all (\<lambda>w. unat w < length vs) rest"
    by simp_all
  from Subdivide_from_returns [OF rest, of mid "Suc i"]
  obtain V' I' where r: "Subdivide_from mid vs (Suc i) rest = Inr (V', I')"
    by blast
  from "1.prems"(2) ok r have V: "V = ?S @ V'" and I: "I = Subdivide_indices i @ I'"
    by simp_all
  from "1.prems"(4) V have room: "6 * i + 6 \<le> 2 ^ 32" and room': "6 * Suc i + length V' \<le> 2 ^ 32"
    by (simp_all add: length_Subdivide_vertices)
  from "1.prems"(3) have lP: "length (P @ ?S) = 6 * Suc i"
    by (simp add: length_Subdivide_vertices)
  have tail: "triangles_of ((P @ ?S) @ V') I'
                = concat (map (four_triangles mid) (triangles_of vs rest))"
    by (rule "1.IH" [OF ok rest r lP room'])
  have "triangles_of (P @ V) I
          = four_triangles mid (vs ! unat a, vs ! unat b, vs ! unat c)
            @ triangles_of (P @ ?S @ V') I'"
    unfolding V I by (rule Subdivide_indices_triangles [OF "1.prems"(3) room])
  with tail show ?case by simp
qed simp_all

lemma Subdivide_from_keeps_corners:
  "list_all (\<lambda>w. unat w < length vs) is \<Longrightarrow>
   Subdivide_from mid vs i is = Inr (V, I) \<Longrightarrow>
   list_all (\<lambda>(v0, v1, v2). v0 \<in> set V \<and> v1 \<in> set V \<and> v2 \<in> set V) (triangles_of vs is)"
proof (induction mid vs i "is" arbitrary: V I rule: Subdivide_from.induct)
  case (1 mid vs i a b c rest)
  let ?S = "Subdivide_vertices mid (vs ! unat a) (vs ! unat b) (vs ! unat c)"
  from "1.prems"(1) have ok: "unat a < length vs \<and> unat b < length vs \<and> unat c < length vs"
    and rest: "list_all (\<lambda>w. unat w < length vs) rest"
    by simp_all
  from Subdivide_from_returns [OF rest, of mid "Suc i"]
  obtain V' I' where r: "Subdivide_from mid vs (Suc i) rest = Inr (V', I')"
    by blast
  from "1.prems"(2) ok r have V: "V = ?S @ V'"
    by simp
  have "list_all (\<lambda>(v0, v1, v2). v0 \<in> set V' \<and> v1 \<in> set V' \<and> v2 \<in> set V')
          (triangles_of vs rest)"
    by (rule "1.IH" [OF ok rest r])
  then have tail: "list_all (\<lambda>(v0, v1, v2). v0 \<in> set V \<and> v1 \<in> set V \<and> v2 \<in> set V)
          (triangles_of vs rest)"
    unfolding V by (rule list.pred_mono_strong) auto
  have "vs ! unat a \<in> set ?S \<and> vs ! unat b \<in> set ?S \<and> vs ! unat c \<in> set ?S"
    by (simp add: Subdivide_vertices_def Let_def)
  then have "vs ! unat a \<in> set V \<and> vs ! unat b \<in> set V \<and> vs ! unat c \<in> set V"
    unfolding V by simp
  with tail show ?case by simp
qed simp_all

lemma Subdivide_valid:
  assumes "valid_mesh m"
  shows "\<exists>m1. Subdivide mid m = Inr m1 \<and> valid_mesh m1 \<and>
           triangle_count m1 = 4 * triangle_count m \<and>
           length (Vertices m1) = 6 * triangle_count m \<and>
           Subdivide_from mid (Vertices m) 0 (Indices32 m) = Inr (Vertices m1, Indices32 m1)"
proof -
  from assms have v: "list_all (\<lambda>w. unat w < length (Vertices m)) (Indices32 m)"
    by (simp add: valid_mesh_def)
  from Subdivide_from_returns [OF v, of mid 0]
  obtain V I where r: "Subdivide_from mid (Vertices m) 0 (Indices32 m) = Inr (V, I)"
    and lV: "length V = 6 * (length (Indices32 m) div 3)"
    and lI: "length I = 12 * (length (Indices32 m) div 3)"
    and vI: "list_all (\<lambda>w. unat w < 6 * 0 + length V) I"
    by blast
  let ?m1 = "m\<lparr>Vertices := V, Indices32 := I\<rparr>"
  have s: "Subdivide mid m = Inr ?m1"
    using r by (simp add: Subdivide_def)
  have "valid_mesh ?m1"
    using lI vI by (simp add: valid_mesh_def)
  moreover have "triangle_count ?m1 = 4 * triangle_count m"
    using lI by (simp add: triangle_count_def)
  moreover have "length (Vertices ?m1) = 6 * triangle_count m"
    using lV by (simp add: triangle_count_def)
  ultimately show ?thesis using s r by simp
qed

text \<open>
  C8. One pass of \<open>Subdivide\<close> over a valid mesh with \<open>T\<close> triangles returns a valid mesh
  with exactly \<open>4 * T\<close> triangles, and a second pass one with \<open>16 * T\<close>. The three
  corners of every input triangle are vertices of the result, unchanged. Where the
  \<open>6 * T\<close> vertices of the result can be addressed by 32-bit indices, the triangles of
  the result are, in order, the four triangles \<open>(v0,m0,m2)\<close>, \<open>(m0,v1,m1)\<close>,
  \<open>(m2,m1,v2)\<close>, \<open>(m0,m1,m2)\<close> of each input triangle \<open>(v0,v1,v2)\<close>, so the corners
  \<open>v0\<close>, \<open>v1\<close>, \<open>v2\<close> keep their positions and all their other attributes.
\<close>

theorem Subdivide_quadruples:
  assumes "valid_mesh m"
  shows "\<exists>m1 m2. Subdivide mid m = Inr m1 \<and> valid_mesh m1 \<and>
           triangle_count m1 = 4 * triangle_count m \<and>
           Subdivide mid m1 = Inr m2 \<and> triangle_count m2 = 16 * triangle_count m \<and>
           list_all (\<lambda>(v0, v1, v2). v0 \<in> set (Vertices m1) \<and> v1 \<in> set (Vertices m1) \<and>
                       v2 \<in> set (Vertices m1)) (triangles m) \<and>
           (6 * triangle_count m \<le> 2 ^ 32 \<longrightarrow>
              triangles m1 = concat (map (four_triangles mid) (triangles m)))"
proof -
  from assms have v: "list_all (\<lambda>w. unat w < length (Vertices m)) (Indices32 m)"
    by (simp add: valid_mesh_def)
  from Subdivide_valid [OF assms, of mid]
  obtain m1 where s1: "Subdivide mid m = Inr m1" and v1: "valid_mesh m1"
    and c1: "triangle_count m1 = 4 * triangle_count m"
    and l1: "length (Vertices m1) = 6 * triangle_count m"
    and r: "Subdivide_from mid (Vertices m) 0 (Indices32 m) = Inr (Vertices m1, Indices32 m1)"
    by blast
  from Subdivide_valid [OF v1, of mid]
  obtain m2 where s2: "Subdivide mid m1 = Inr m2"
    and c2: "triangle_count m2 = 4 * triangle_count m1"
    by blast
  from c1 c2 have c2': "triangle_count m2 = 16 * triangle_count m" by simp
  have k: "list_all (\<lambda>(v0, v1, v2). v0 \<in> set (Vertices m1) \<and> v1 \<in> set (Vertices m1) \<and>
                       v2 \<in> set (Vertices m1)) (triangles m)"
    unfolding triangles_def by (rule Subdivide_from_keeps_corners [OF v r])
  have t: "triangles m1 = concat (map (four_triangles mid) (triangles m))"
    if "6 * triangle_count m \<le> 2 ^ 32"
  proof -
    from that l1 have "6 * 0 + length (Vertices m1) \<le> (2 :: nat) ^ 32" by simp
    from Subdivide_from_triangles [OF v r _ this, of "[]"]
    show ?thesis by (simp add: triangles_def)
  qed
  from s1 v1 c1 s2 c2' k t show ?thesis by blast
qed

theorem Subdivide_quadruples_witness:
  "valid_mesh example_triangle \<and> triangle_count example_triangle = 1 \<and>
   6 * triangle_count example_triangle \<le> 2 ^ 32 \<and>
   (\<forall>mid. \<exists>m1 m2. Subdivide mid example_triangle = Inr m1 \<and> triangle_count m1 = 4 \<and>
      Subdivide mid m1 = Inr m2 \<and> triangle_count m2 = 16 \<and>
      triangles m1 =
        four_triangles mid
          (example_vertex,
           example_vertex\<lparr>Position := XMFLOAT3 0x3F800000 0 0\<rparr>,
           example_vertex\<lparr>Position := XMFLOAT3 0 0x3F800000 0\<rparr>))"
proof -
  have h: "valid_mesh example_triangle"
    by (simp add: valid_mesh_def example_triangle_def)
  have c: "triangle_count example_triangle = 1"
    by (simp add: triangle_count_def example_triangle_def)
  have b: "6 * triangle_count example_triangle \<le> 2 ^ 32"
    by (simp add: c)
  have t: "triangles example_triangle =
             [(example_vertex,
               example_vertex\<lparr>Position := XMFLOAT3 0x3F800000 0 0\<rparr>,
               example_vertex\<lparr>Position := XMFLOAT3 0 0x3F800000 0\<rparr>)]"
    by (simp add: triangles_def example_triangle_def)
  have "\<exists>m1 m2. Subdivide mid example_triangle = Inr m1 \<and> triangle_count m1 = 4 \<and>
      Subdivide mid m1 = Inr m2 \<and> triangle_count m2 = 16 \<and>
      triangles m1 =
        four_triangles mid
          (example_vertex,
           example_vertex\<lparr>Position := XMFLOAT3 0x3F800000 0 0\<rparr>,
           example_vertex\<lparr>Position := XMFLOAT3 0 0x3F800000 0\<rparr>)" for mid
    using Subdivide_quadruples [OF h, of mid] b unfolding c t by auto
  with h c b show ?thesis by blast
qed

end
